theory Spec2Isabelle
  imports Main
begin

section \<open>Python values: errors, indexing, dense matrices\<close>

text \<open>
  The solver of \<^verbatim>\<open>parallel_dtptb/solver.py\<close> raises nothing of its own; the only
  failures are the ones of the Python run time: an index outside an array
  (\<^verbatim>\<open>IndexError\<close>) and, in the graph builder, a key missing from a dict
  (\<^verbatim>\<open>KeyError\<close>).
\<close>

datatype error = IndexError | KeyError

text \<open>
  Indexing one axis of length \<open>n\<close> with a Python integer: an index in \<open>-n..-1\<close>
  counts from the end, everything outside \<open>-n..n-1\<close> raises.
\<close>

definition py_index :: "nat \<Rightarrow> int \<Rightarrow> error + nat" where
  "py_index n k =
     (if 0 \<le> k \<and> k < int n then Inr (nat k)
      else if - int n \<le> k \<and> k < 0 then Inr (nat (int n + k))
      else Inl IndexError)"

text \<open>
  A two-dimensional numpy array: its shape and its cells. Cells outside the shape are
  never read.
\<close>

record matrix =
  nrows :: nat
  ncols :: nat
  cell :: "nat \<Rightarrow> nat \<Rightarrow> int"

text \<open>\<^verbatim>\<open>np.zeros((r, c))\<close>\<close>

definition zeros :: "nat \<Rightarrow> nat \<Rightarrow> matrix" where
  "zeros r c = \<lparr>nrows = r, ncols = c, cell = (\<lambda>_ _. 0)\<rparr>"

text \<open>\<^verbatim>\<open>matrix[row, col]\<close>\<close>

definition item :: "matrix \<Rightarrow> int \<Rightarrow> int \<Rightarrow> error + int" where
  "item m row col =
     (case py_index (nrows m) row of
        Inl e \<Rightarrow> Inl e
      | Inr r \<Rightarrow>
          (case py_index (ncols m) col of
             Inl e \<Rightarrow> Inl e
           | Inr c \<Rightarrow> Inr (cell m r c)))"

text \<open>\<^verbatim>\<open>matrix[i, j] = v\<close> for indices already resolved.\<close>

definition setitem :: "matrix \<Rightarrow> nat \<Rightarrow> nat \<Rightarrow> int \<Rightarrow> matrix" where
  "setitem m i j v = m\<lparr>cell := (cell m)(i := (cell m i)(j := v))\<rparr>"

text \<open>\<^verbatim>\<open>matrix.T\<close>\<close>

definition transpose_T :: "matrix \<Rightarrow> matrix" where
  "transpose_T m = \<lparr>nrows = ncols m, ncols = nrows m, cell = (\<lambda>i j. cell m j i)\<rparr>"

section \<open>The game model\<close>

text \<open>
  A game object as the solver and the graph builder use it: the methods
  \<^verbatim>\<open>states\<close>, \<^verbatim>\<open>actions\<close>, \<^verbatim>\<open>delta\<close>, \<^verbatim>\<open>final\<close>, \<^verbatim>\<open>turn\<close> and the attribute
  \<^verbatim>\<open>param_final\<close>. An action is a pair of states; \<^verbatim>\<open>delta\<close> returns \<^verbatim>\<open>None\<close> to skip an
  edge.
\<close>

record game =
  states :: "int list"
  actions :: "(int \<times> int) list"
  delta :: "int \<Rightarrow> int \<times> int \<Rightarrow> int option"
  final :: "int \<Rightarrow> bool"
  turn :: "int \<Rightarrow> int"
  param_final :: "int list"

text \<open>\<^verbatim>\<open>JobstmannGame(final)\<close> of \<^verbatim>\<open>jobstmann.py\<close>.\<close>

definition JobstmannGame :: "int list \<Rightarrow> game" where
  "JobstmannGame fin =
     \<lparr>states = map int [0..<4],
      actions = [(0, 1), (1, 2), (2, 3)],
      delta = (\<lambda>state act. if state = fst act then Some (snd act) else None),
      final = (\<lambda>state. if state \<in> set fin then True else False),
      turn = (\<lambda>state. if state \<in> set [2] then 1 else 2),
      param_final = fin\<rparr>"

section \<open>The graph builder\<close>

text \<open>
  \<^verbatim>\<open>dict(zip(keys, range(len(keys))))\<close>: a later pair overwrites an earlier one with the
  same key; iteration over the dict follows the first insertion of each key.
\<close>

fun dict_zip :: "int list \<Rightarrow> nat \<Rightarrow> (int \<rightharpoonup> nat) \<Rightarrow> (int \<rightharpoonup> nat)" where
  "dict_zip [] k d = d"
| "dict_zip (x # xs) k d = dict_zip xs (Suc k) (d(x \<mapsto> k))"

definition dict_keys :: "'a list \<Rightarrow> 'a list" where
  "dict_keys xs = rev (remdups (rev xs))"

text \<open>
  The two nested loops of \<^verbatim>\<open>MyGame.matrixBuilder\<close>. Only \<^verbatim>\<open>matrix_A\<close> is returned, so
  \<^verbatim>\<open>matrix_M\<close> and the action indices are left out. \<^verbatim>\<open>states[ds]\<close> raises
  \<^verbatim>\<open>KeyError\<close> when \<^verbatim>\<open>delta\<close> leaves the declared states.
\<close>

fun builder_actions ::
  "game \<Rightarrow> (int \<rightharpoonup> nat) \<Rightarrow> int \<Rightarrow> (int \<times> int) list \<Rightarrow> matrix \<Rightarrow> error + matrix" where
  "builder_actions g d s [] matrix_A = Inr matrix_A"
| "builder_actions g d s (a # as) matrix_A =
     (case delta g s a of
        None \<Rightarrow> builder_actions g d s as matrix_A
      | Some ds \<Rightarrow>
          (case d s of
             None \<Rightarrow> Inl KeyError
           | Some i \<Rightarrow>
               (case d ds of
                  None \<Rightarrow> Inl KeyError
                | Some j \<Rightarrow> builder_actions g d s as (setitem matrix_A i j 1))))"

fun builder_states ::
  "game \<Rightarrow> (int \<rightharpoonup> nat) \<Rightarrow> int list \<Rightarrow> (int \<times> int) list \<Rightarrow> matrix \<Rightarrow> error + matrix" where
  "builder_states g d [] acts matrix_A = Inr matrix_A"
| "builder_states g d (s # ss) acts matrix_A =
     (case builder_actions g d s acts matrix_A of
        Inl e \<Rightarrow> Inl e
      | Inr matrix_A' \<Rightarrow> builder_states g d ss acts matrix_A')"

definition matrixBuilder :: "game \<Rightarrow> int list \<Rightarrow> (int \<times> int) list \<Rightarrow> error + matrix" where
  "matrixBuilder g sts acts =
     (let n = length sts;
          d = dict_zip sts 0 Map.empty
      in builder_states g d (dict_keys sts) (dict_keys acts) (zeros n n))"

section \<open>The attractor solver\<close>

text \<open>The helper \<^verbatim>\<open>adj(matrix, row)\<close>: the columns holding 1 in a row, in increasing order.\<close>

fun adj_loop :: "matrix \<Rightarrow> int \<Rightarrow> nat list \<Rightarrow> int list \<Rightarrow> error + int list" where
  "adj_loop m row [] temp = Inr temp"
| "adj_loop m row (col # cols) temp =
     (case item m row (int col) of
        Inl e \<Rightarrow> Inl e
      | Inr x \<Rightarrow> adj_loop m row cols (if x = 1 then temp @ [int col] else temp))"

definition adj :: "matrix \<Rightarrow> int \<Rightarrow> error + int list" where
  "adj m row = adj_loop m row [0..<ncols m] []"

text \<open>The preprocessing pass that fills \<^verbatim>\<open>Removed\<close> (solver.py, lines 51 to 56).\<close>

fun removed_inner ::
  "game \<Rightarrow> matrix \<Rightarrow> nat \<Rightarrow> nat list \<Rightarrow> int list \<Rightarrow> error + int list" where
  "removed_inner g G iter [] Removed = Inr Removed"
| "removed_inner g G iter (iter1 # rest) Removed =
     (case item G (int iter1) (int iter) of
        Inl e \<Rightarrow> Inl e
      | Inr x \<Rightarrow>
          removed_inner g G iter rest
            (if x = 1 \<and> turn g (int iter) = 2 then Removed @ [int iter1] else Removed))"

fun removed_outer :: "game \<Rightarrow> matrix \<Rightarrow> nat list \<Rightarrow> int list \<Rightarrow> error + int list" where
  "removed_outer g G [] Removed = Inr Removed"
| "removed_outer g G (iter # rest) Removed =
     (case item G (int iter) (int iter) of
        Inl e \<Rightarrow> Inl e
      | Inr x \<Rightarrow>
          if x = 1 \<and> turn g (int iter) = 2 then
            (case removed_inner g G iter [0..<nrows G] Removed of
               Inl e \<Rightarrow> Inl e
             | Inr Removed' \<Rightarrow> removed_outer g G rest Removed')
          else removed_outer g G rest Removed)"

definition removed_set :: "game \<Rightarrow> matrix \<Rightarrow> error + int list" where
  "removed_set g G = removed_outer g G [0..<nrows G] []"

text \<open>The loop that fills \<^verbatim>\<open>tmpMap\<close> (lines 65 to 70): 0 for a target, -1 otherwise.\<close>

fun init_tmpMap :: "int list \<Rightarrow> nat list \<Rightarrow> int list \<Rightarrow> int list" where
  "init_tmpMap A [] tmpMap = tmpMap"
| "init_tmpMap A (x # xs) tmpMap =
     init_tmpMap A xs (tmpMap[x := (if int x \<in> set A then 0 else - 1)])"

text \<open>The inner loop counting the successors outside \<^verbatim>\<open>Removed\<close> (lines 85 to 88).\<close>

fun count_loop :: "int list \<Rightarrow> int list \<Rightarrow> int \<Rightarrow> int" where
  "count_loop Removed [] adj_counter = adj_counter"
| "count_loop Removed (x # xs) adj_counter =
     count_loop Removed xs (if x \<notin> set Removed then adj_counter + 1 else adj_counter)"

text \<open>
  The body of the loop over the predecessors, for a predecessor \<open>v0\<close> outside
  \<^verbatim>\<open>Removed\<close> whose index \<open>k\<close> into \<^verbatim>\<open>tmpMap\<close> is resolved. It is two statements in
  sequence: the branch for a state seen for the first time (lines 77 to 91), then the
  decrement (lines 92 to 95), which also runs right after the first one.
\<close>

definition first_seen ::
  "game \<Rightarrow> matrix \<Rightarrow> int list \<Rightarrow> int \<Rightarrow> int \<Rightarrow> nat \<Rightarrow> int list \<times> int list
     \<Rightarrow> error + int list \<times> int list" where
  "first_seen g G Removed i v0 k st =
     (case st of (A, tmpMap) \<Rightarrow>
        if tmpMap ! k = - 1 then
          (if turn g v0 = i then Inr (A @ [v0], tmpMap[k := 0])
           else
             (case adj G v0 of
                Inl e \<Rightarrow> Inl e
              | Inr xs \<Rightarrow>
                  let adj_counter = count_loop Removed xs (- 1)
                  in Inr (if adj_counter = 0 then A @ [v0] else A, tmpMap[k := adj_counter])))
        else Inr (A, tmpMap))"

definition decrement :: "game \<Rightarrow> int \<Rightarrow> nat \<Rightarrow> int list \<times> int list \<Rightarrow> int list \<times> int list" where
  "decrement g v0 k st =
     (case st of (A, tmpMap) \<Rightarrow>
        if turn g v0 = 2 \<and> tmpMap ! k > 0 then
          (if tmpMap ! k - 1 = 0 then A @ [v0] else A, tmpMap[k := tmpMap ! k - 1])
        else (A, tmpMap))"

definition visit ::
  "game \<Rightarrow> matrix \<Rightarrow> int list \<Rightarrow> int \<Rightarrow> int \<Rightarrow> int list \<times> int list
     \<Rightarrow> error + int list \<times> int list" where
  "visit g G Removed i v0 st =
     (if v0 \<in> set Removed then Inr st
      else
        (case py_index (length (snd st)) v0 of
           Inl e \<Rightarrow> Inl e
         | Inr k \<Rightarrow>
             (case first_seen g G Removed i v0 k st of
                Inl e \<Rightarrow> Inl e
              | Inr st1 \<Rightarrow> Inr (decrement g v0 k st1))))"

text \<open>The loop \<^verbatim>\<open>for v0 in adj(T, A[index])\<close> over a list of predecessors computed before.\<close>

fun for_preds ::
  "game \<Rightarrow> matrix \<Rightarrow> int list \<Rightarrow> int \<Rightarrow> int list \<Rightarrow> int list \<times> int list
     \<Rightarrow> error + int list \<times> int list" where
  "for_preds g G Removed i [] st = Inr st"
| "for_preds g G Removed i (v0 # vs) st =
     (case visit g G Removed i v0 st of
        Inl e \<Rightarrow> Inl e
      | Inr st' \<Rightarrow> for_preds g G Removed i vs st')"

text \<open>
  Every append to \<^verbatim>\<open>A\<close> turns a non-zero entry of \<^verbatim>\<open>tmpMap\<close> into 0, and no zero entry
  is ever written again: the number of non-zero entries bounds the appends to come.
\<close>

definition nonzeros :: "int list \<Rightarrow> nat" where
  "nonzeros tmpMap = length (filter (\<lambda>c. c \<noteq> 0) tmpMap)"

lemma nonzeros_update:
  "k < length tm \<Longrightarrow>
     nonzeros (tm[k := c]) + (if tm ! k \<noteq> 0 then 1 else 0)
       = nonzeros tm + (if c \<noteq> 0 then 1 else 0)"
proof (induction tm arbitrary: k)
  case Nil
  then show ?case by simp
next
  case (Cons a tm)
  show ?case
  proof (cases k)
    case 0
    then show ?thesis by (simp add: nonzeros_def)
  next
    case (Suc j)
    with Cons.prems have "j < length tm" by simp
    from Cons.IH[OF this] Suc show ?thesis
      by (simp add: nonzeros_def split: if_splits)
  qed
qed

lemma py_index_less: "py_index n v = Inr k \<Longrightarrow> k < n"
  by (auto simp: py_index_def split: if_splits)

lemma first_seen_measure:
  assumes "first_seen g G Removed i v0 k (A, tm) = Inr (A', tm')" and "k < length tm"
  shows "length A' + nonzeros tm' = length A + nonzeros tm \<and> length tm' = length tm
           \<and> length A \<le> length A'"
proof (cases "tm ! k = - 1")
  case False
  with assms show ?thesis by (simp add: first_seen_def)
next
  case seen: True
  show ?thesis
  proof (cases "turn g v0 = i")
    case True
    with seen assms nonzeros_update[of k tm 0] show ?thesis
      by (auto simp: first_seen_def)
  next
    case False
    with seen assms obtain xs where xs: "adj G v0 = Inr xs"
      and A': "A' = (if count_loop Removed xs (- 1) = 0 then A @ [v0] else A)"
      and tm': "tm' = tm[k := count_loop Removed xs (- 1)]"
      by (auto simp: first_seen_def Let_def split: sum.splits)
    from seen assms nonzeros_update[of k tm "count_loop Removed xs (- 1)"] A' tm'
    show ?thesis by (auto split: if_splits)
  qed
qed

lemma decrement_measure:
  assumes "decrement g v0 k (A, tm) = (A', tm')" and "k < length tm"
  shows "length A' + nonzeros tm' = length A + nonzeros tm \<and> length tm' = length tm
           \<and> length A \<le> length A'"
  using assms nonzeros_update[of k tm "tm ! k - 1"]
  by (auto simp: decrement_def split: if_splits)

lemma visit_measure:
  assumes "visit g G Removed i v0 (A, tm) = Inr (A', tm')"
  shows "length A' + nonzeros tm' = length A + nonzeros tm \<and> length tm' = length tm
           \<and> length A \<le> length A'"
proof (cases "v0 \<in> set Removed")
  case True
  with assms show ?thesis by (simp add: visit_def)
next
  case False
  with assms obtain k A1 tm1 where k: "py_index (length tm) v0 = Inr k"
    and fs: "first_seen g G Removed i v0 k (A, tm) = Inr (A1, tm1)"
    and de: "decrement g v0 k (A1, tm1) = (A', tm')"
    by (auto simp: visit_def split: sum.splits)
  from k have kl: "k < length tm" by (rule py_index_less)
  from first_seen_measure[OF fs kl] decrement_measure[OF de] kl show ?thesis by simp
qed

lemma for_preds_measure:
  "for_preds g G Removed i vs (A, tm) = Inr (A', tm') \<Longrightarrow>
     length A' + nonzeros tm' = length A + nonzeros tm \<and> length tm' = length tm
       \<and> length A \<le> length A'"
proof (induction vs arbitrary: A tm)
  case Nil
  then show ?case by simp
next
  case (Cons v0 vs)
  from Cons.prems obtain A1 tm1 where v: "visit g G Removed i v0 (A, tm) = Inr (A1, tm1)"
    and r: "for_preds g G Removed i vs (A1, tm1) = Inr (A', tm')"
    by (auto split: sum.splits)
  from visit_measure[OF v] Cons.IH[OF r] show ?case by simp
qed

text \<open>
  The worklist loop (lines 73 to 97). The cursor \<open>index\<close> moves over a list that the body
  extends; the loop ends because \<open>length A - index + nonzeros tmpMap\<close> falls by one in
  every iteration.
\<close>

function while_loop ::
  "game \<Rightarrow> matrix \<Rightarrow> matrix \<Rightarrow> int list \<Rightarrow> int \<Rightarrow> nat \<Rightarrow> int list \<Rightarrow> int list
     \<Rightarrow> error + int list" where
  "while_loop g G T Removed i index A tmpMap =
     (if index < length A then
        (case adj T (A ! index) of
           Inl e \<Rightarrow> Inl e
         | Inr vs \<Rightarrow>
             (case for_preds g G Removed i vs (A, tmpMap) of
                Inl e \<Rightarrow> Inl e
              | Inr (A', tmpMap') \<Rightarrow> while_loop g G T Removed i (index + 1) A' tmpMap'))
      else Inr A)"
  by pat_completeness auto
termination
proof (relation "measure (\<lambda>(g, G, T, Removed, i, index, A, tmpMap).
                    length A - index + nonzeros tmpMap)", goal_cases)
  case 1
  show ?case by simp
next
  case (2 g G T Removed i index A tmpMap vs st A' tmpMap')
  then have "for_preds g G Removed i vs (A, tmpMap) = Inr (A', tmpMap')" by simp
  from for_preds_measure[OF this] 2(1) show ?case by simp
qed

declare while_loop.simps [simp del]

text \<open>
  \<^verbatim>\<open>SWinReacher.solver(game, G, T, final, i)\<close>; \<open>fin\<close> is \<^verbatim>\<open>list(final)\<close>.
\<close>

definition solver :: "game \<Rightarrow> matrix \<Rightarrow> matrix \<Rightarrow> int list \<Rightarrow> int \<Rightarrow> error + int list" where
  "solver g G T fin i =
     (case removed_set g G of
        Inl e \<Rightarrow> Inl e
      | Inr Removed \<Rightarrow>
          let A = fin;
              tmpMap = init_tmpMap A [0..<nrows G] (replicate (nrows G) 0)
          in while_loop g G T Removed i 0 A tmpMap)"

text \<open>
  The script of \<^verbatim>\<open>jobstmann.py\<close>: build the matrix of the game, then solve with the
  transpose as predecessor matrix.
\<close>

definition solve_game :: "game \<Rightarrow> int \<Rightarrow> error + int list" where
  "solve_game g i =
     (case matrixBuilder g (states g) (actions g) of
        Inl e \<Rightarrow> Inl e
      | Inr graph \<Rightarrow> solver g graph (transpose_T graph) (param_final g) i)"

section \<open>Concrete games\<close>

text \<open>
  Scenario B of the specification: the game of \<^verbatim>\<open>jobstmann.py\<close> with a fifth state 4
  and the extra edge from 1 to 4; state 4 has no outgoing edge, state 2 alone belongs to
  player 1.
\<close>

definition scenarioB :: game where
  "scenarioB =
     (JobstmannGame [3])\<lparr>states := map int [0..<5],
                          actions := [(0, 1), (1, 2), (1, 4), (2, 3)]\<rparr>"

text \<open>
  A two-state game whose state 1 belongs to player 2 and has a self-loop, and a game on
  the states 0 to 3 whose only edges leave state 2, the state of player 1, towards 1
  and 3.
\<close>

definition selfloop_game :: game where
  "selfloop_game =
     (JobstmannGame [1])\<lparr>states := map int [0..<2], actions := [(0, 1), (1, 1)]\<rparr>"

definition fork_game :: game where
  "fork_game =
     (JobstmannGame [1, 3])\<lparr>actions := [(2, 1), (2, 3)]\<rparr>"

text \<open>A square 0/1 matrix given by its list of edges, and the matrices of the games above.\<close>

definition matrix_of_edges :: "nat \<Rightarrow> (nat \<times> nat) list \<Rightarrow> matrix" where
  "matrix_of_edges n es =
     \<lparr>nrows = n, ncols = n, cell = (\<lambda>i j. if (i, j) \<in> set es then 1 else 0)\<rparr>"

definition graph_A :: matrix where
  "graph_A = matrix_of_edges 4 [(0, 1), (1, 2), (2, 3)]"

definition graph_B :: matrix where
  "graph_B = matrix_of_edges 5 [(0, 1), (1, 2), (1, 4), (2, 3)]"

definition graph_selfloop :: matrix where
  "graph_selfloop = matrix_of_edges 2 [(0, 1), (1, 1)]"

definition graph_fork :: matrix where
  "graph_fork = matrix_of_edges 4 [(2, 1), (2, 3)]"

section \<open>Notions used in the proofs\<close>

text \<open>
  The columns holding 1 in a resolved row; the successors of a state outside
  \<^verbatim>\<open>Removed\<close>; the states that one self-looping state of player 2 puts into
  \<^verbatim>\<open>Removed\<close>.
\<close>

definition ones :: "matrix \<Rightarrow> nat \<Rightarrow> nat list \<Rightarrow> int list" where
  "ones m r cols = map int (filter (\<lambda>c. cell m r c = 1) cols)"

definition free_succs :: "matrix \<Rightarrow> int list \<Rightarrow> int \<Rightarrow> int list" where
  "free_succs G Removed v = filter (\<lambda>x. x \<notin> set Removed) (ones G (nat v) [0..<ncols G])"

definition removed_by :: "game \<Rightarrow> matrix \<Rightarrow> nat \<Rightarrow> int list" where
  "removed_by g G v =
     (if cell G v v = 1 \<and> turn g (int v) = 2
      then map int (filter (\<lambda>v1. cell G v1 v = 1 \<and> turn g (int v) = 2) [0..<nrows G])
      else [])"

text \<open>
  The invariant of the worklist loop: \<^verbatim>\<open>tmpMap\<close> has one entry per state; every
  worklist element is a declared state whose entry is 0; the worklist is the target list
  followed by distinct appended states, none of them a target or in \<^verbatim>\<open>Removed\<close>; and
  every appended state is a predecessor in \<open>T\<close> of an earlier element.
\<close>

definition loop_inv :: "nat \<Rightarrow> matrix \<Rightarrow> int list \<Rightarrow> int list \<Rightarrow> int list \<Rightarrow> int list \<Rightarrow> bool" where
  "loop_inv n T Removed fin A tm \<longleftrightarrow>
     length tm = n \<and>
     (\<forall>s\<in>set A. 0 \<le> s \<and> s < int n \<and> tm ! nat s = 0) \<and>
     (\<exists>ys. A = fin @ ys \<and> distinct ys \<and> set ys \<inter> set fin = {} \<and> set ys \<inter> set Removed = {}) \<and>
     (\<forall>p<length A. length fin \<le> p \<longrightarrow> (\<exists>j<p. cell T (nat (A ! j)) (nat (A ! p)) = 1))"

section \<open>Facts about the helpers\<close>

lemma py_index_range: "0 \<le> v \<Longrightarrow> v < int n \<Longrightarrow> py_index n v = Inr (nat v)"
  by (simp add: py_index_def)

lemma item_range:
  "0 \<le> r \<Longrightarrow> r < int (nrows m) \<Longrightarrow> c < ncols m \<Longrightarrow> item m r (int c) = Inr (cell m (nat r) c)"
  by (simp add: item_def py_index_def)

lemma adj_loop_resolved:
  "py_index (nrows m) row = Inr r \<Longrightarrow> \<forall>c\<in>set cols. c < ncols m \<Longrightarrow>
     adj_loop m row cols temp = Inr (temp @ ones m r cols)"
proof (induction cols arbitrary: temp)
  case Nil
  then show ?case by (simp add: ones_def)
next
  case (Cons c cols)
  from Cons.prems have "item m row (int c) = Inr (cell m r c)"
    by (simp add: item_def py_index_def)
  with Cons show ?case by (simp add: ones_def)
qed

lemma adj_resolved:
  "py_index (nrows m) row = Inr r \<Longrightarrow> adj m row = Inr (ones m r [0..<ncols m])"
  using adj_loop_resolved[of m row r "[0..<ncols m]" "[]"] by (simp add: adj_def)

lemma ones_mem: "v \<in> set (ones m r [0..<n]) \<longleftrightarrow> 0 \<le> v \<and> v < int n \<and> cell m r (nat v) = 1"
  by (auto simp: ones_def intro!: image_eqI[where x="nat v"])

lemma distinct_ones: "distinct (ones m r [0..<n])"
  by (simp add: ones_def distinct_map inj_on_def)

lemma count_loop_eq:
  "count_loop Removed xs c = c + int (length (filter (\<lambda>x. x \<notin> set Removed) xs))"
  by (induction xs arbitrary: c) auto

lemma visit_removed: "v0 \<in> set Removed \<Longrightarrow> visit g G Removed i v0 st = Inr st"
  by (simp add: visit_def)

lemma visit_range:
  assumes "0 \<le> v0" "v0 < int (length tm)" "v0 < int (nrows G)" "v0 \<notin> set Removed"
  shows "visit g G Removed i v0 (A, tm) =
     Inr (decrement g v0 (nat v0)
       (if tm ! nat v0 = - 1 then
          (if turn g v0 = i then (A @ [v0], tm[nat v0 := 0])
           else (if int (length (free_succs G Removed v0)) = 1 then A @ [v0] else A,
                 tm[nat v0 := int (length (free_succs G Removed v0)) - 1]))
        else (A, tm)))"
  using assms
  by (simp add: visit_def py_index_range first_seen_def adj_resolved count_loop_eq
      free_succs_def Let_def)

lemma visit_effect:
  assumes "visit g G Removed i v0 (A, tm) = Inr (A', tm')" "v0 \<notin> set Removed"
  shows "\<exists>k. py_index (length tm) v0 = Inr k \<and> tm' = tm[k := tm' ! k]
           \<and> (tm ! k = 0 \<longrightarrow> tm' ! k = 0)
           \<and> (A' = A \<or> A' = A @ [v0] \<and> tm ! k \<noteq> 0 \<and> tm' ! k = 0)"
proof -
  from assms obtain k A1 tm1 where k: "py_index (length tm) v0 = Inr k"
    and fs: "first_seen g G Removed i v0 k (A, tm) = Inr (A1, tm1)"
    and de: "decrement g v0 k (A1, tm1) = (A', tm')"
    by (auto simp: visit_def split: sum.splits)
  from k have kl: "k < length tm" by (rule py_index_less)
  from fs kl have 1: "tm1 = tm[k := tm1 ! k] \<and> (tm ! k = 0 \<longrightarrow> tm1 ! k = 0)
           \<and> (A1 = A \<or> A1 = A @ [v0] \<and> tm ! k \<noteq> 0 \<and> tm1 ! k = 0)"
    by (auto simp: first_seen_def Let_def split: if_splits sum.splits)
  from first_seen_measure[OF fs kl] have kl1: "k < length tm1" using kl by simp
  from de kl1 have 2: "tm' = tm1[k := tm' ! k] \<and> (tm1 ! k = 0 \<longrightarrow> tm' = tm1 \<and> A' = A1)
           \<and> (A' = A1 \<or> A' = A1 @ [v0] \<and> tm1 ! k \<noteq> 0 \<and> tm' ! k = 0)"
    by (auto simp: decrement_def split: if_splits)
  from 1 2 have "tm' = tm[k := tm' ! k]"
    by (metis list_update_overwrite)
  moreover from 1 2 have "tm ! k = 0 \<longrightarrow> tm' ! k = 0" by auto
  moreover from 1 2 have "A' = A \<or> A' = A @ [v0] \<and> tm ! k \<noteq> 0 \<and> tm' ! k = 0" by auto
  ultimately show ?thesis using k by blast
qed

lemma for_preds_rule:
  assumes "for_preds g G Removed i vs st = Inr st'" and "P st"
    and "\<And>v s s1. v \<in> set vs \<Longrightarrow> P s \<Longrightarrow> visit g G Removed i v s = Inr s1 \<Longrightarrow> P s1"
  shows "P st'"
  using assms
proof (induction vs arbitrary: st)
  case Nil
  then show ?case by simp
next
  case (Cons v vs)
  from Cons.prems(1) obtain s1 where v: "visit g G Removed i v st = Inr s1"
    and r: "for_preds g G Removed i vs s1 = Inr st'"
    by (auto split: sum.splits)
  have s1: "P s1" using Cons.prems(3)[of v st s1] Cons.prems(2) v by simp
  show ?case
  proof (rule Cons.IH[OF r s1])
    fix w s s2
    assume "w \<in> set vs" "P s" "visit g G Removed i w s = Inr s2"
    then show "P s2" using Cons.prems(3)[of w s s2] by simp
  qed
qed

lemma while_loop_rule:
  assumes "while_loop g G T Removed i index A tm = Inr R" and "I index A tm"
    and "\<And>index A tm vs A' tm'. I index A tm \<Longrightarrow> index < length A \<Longrightarrow>
           adj T (A ! index) = Inr vs \<Longrightarrow>
           for_preds g G Removed i vs (A, tm) = Inr (A', tm') \<Longrightarrow> I (index + 1) A' tm'"
  shows "\<exists>index' tm'. I index' R tm' \<and> \<not> index' < length R"
  using assms
proof (induction g G T Removed i index A tm rule: while_loop.induct)
  case (1 g G T Removed i index A tmpMap)
  show ?case
  proof (cases "index < length A")
    case False
    with "1.prems"(1) have "R = A" by (simp add: while_loop.simps)
    with False "1.prems"(2) show ?thesis by blast
  next
    case True
    with "1.prems"(1) obtain vs A' tm' where vs: "adj T (A ! index) = Inr vs"
      and fp: "for_preds g G Removed i vs (A, tmpMap) = Inr (A', tm')"
      and w: "while_loop g G T Removed i (index + 1) A' tm' = Inr R"
      by (subst (asm) while_loop.simps) (auto split: sum.splits)
    have nxt: "I (index + 1) A' tm'" using "1.prems"(3)[OF "1.prems"(2) True vs fp] .
    show ?thesis
    proof (rule "1.IH"[OF True vs fp refl w nxt])
      fix idx B tn ws B' tn'
      assume "I idx B tn" "idx < length B" "adj T (B ! idx) = Inr ws"
        "for_preds g G Removed i ws (B, tn) = Inr (B', tn')"
      then show "I (idx + 1) B' tn'" by (rule "1.prems"(3))
    qed
  qed
qed

section \<open>The invariant of the worklist loop\<close>

lemma init_tmpMap_length: "length (init_tmpMap A xs tm) = length tm"
  by (induction xs arbitrary: tm) auto

lemma init_tmpMap_nth:
  "y < length tm \<Longrightarrow>
     init_tmpMap A xs tm ! y = (if y \<in> set xs then (if int y \<in> set A then 0 else - 1) else tm ! y)"
  by (induction xs arbitrary: tm) (auto simp: nth_list_update)

lemma removed_inner_eq:
  "iter < ncols G \<Longrightarrow> \<forall>x\<in>set rest. x < nrows G \<Longrightarrow>
     removed_inner g G iter rest Removed =
       Inr (Removed @ map int (filter (\<lambda>v1. cell G v1 iter = 1 \<and> turn g (int iter) = 2) rest))"
proof (induction rest arbitrary: Removed)
  case Nil
  then show ?case by simp
next
  case (Cons v1 rest)
  from Cons.prems have "item G (int v1) (int iter) = Inr (cell G v1 iter)"
    by (simp add: item_def py_index_def)
  with Cons show ?case by simp
qed

lemma removed_outer_eq:
  "\<forall>x\<in>set rest. x < nrows G \<and> x < ncols G \<Longrightarrow>
     removed_outer g G rest Removed = Inr (Removed @ concat (map (removed_by g G) rest))"
proof (induction rest arbitrary: Removed)
  case Nil
  then show ?case by simp
next
  case (Cons v rest)
  from Cons.prems have it: "item G (int v) (int v) = Inr (cell G v v)"
    by (simp add: item_def py_index_def)
  from Cons.prems have inner: "removed_inner g G v [0..<nrows G] Removed =
       Inr (Removed @ map int (filter (\<lambda>v1. cell G v1 v = 1 \<and> turn g (int v) = 2) [0..<nrows G]))"
    by (intro removed_inner_eq) auto
  from Cons.prems have rest: "\<forall>x\<in>set rest. x < nrows G \<and> x < ncols G" by simp
  show ?case
    by (simp add: it inner Cons.IH[OF rest] removed_by_def)
qed

lemma removed_set_eq:
  "nrows G \<le> ncols G \<Longrightarrow>
     removed_set g G = Inr (concat (map (removed_by g G) [0..<nrows G]))"
  using removed_outer_eq[of "[0..<nrows G]" G g "[]"] by (simp add: removed_set_def)

lemma loop_inv_init:
  assumes "\<forall>s\<in>set fin. 0 \<le> s \<and> s < int n"
  shows "loop_inv n T Removed fin fin (init_tmpMap fin [0..<n] (replicate n 0))"
  using assms by (auto simp: loop_inv_def init_tmpMap_length init_tmpMap_nth)

lemma visit_inv:
  assumes inv: "loop_inv n T Removed fin A tm"
    and idx: "idx < length A"
    and v: "0 \<le> v" "v < int n" "cell T (nat (A ! idx)) (nat v) = 1"
    and vis: "visit g G Removed i v (A, tm) = Inr (A', tm')"
  shows "loop_inv n T Removed fin A' tm' \<and> (\<exists>zs. A' = A @ zs)"
proof (cases "v \<in> set Removed")
  case True
  with vis inv show ?thesis by (simp add: visit_removed)
next
  case False
  from inv have len: "length tm = n" by (simp add: loop_inv_def)
  from visit_effect[OF vis False] v len
  have upd: "tm' = tm[nat v := tm' ! nat v]"
    and zero: "tm ! nat v = 0 \<longrightarrow> tm' ! nat v = 0"
    and app: "A' = A \<or> A' = A @ [v] \<and> tm ! nat v \<noteq> 0 \<and> tm' ! nat v = 0"
    by (auto simp: py_index_range)
  from upd len have len': "length tm' = n" by (metis length_list_update)
  have others: "tm' ! j = tm ! j" if "j \<noteq> nat v" for j
    using upd that by (metis nth_list_update_neq)
  from inv have inA: "\<forall>s\<in>set A. 0 \<le> s \<and> s < int n \<and> tm ! nat s = 0" by (simp add: loop_inv_def)
  have inA': "\<forall>s\<in>set A. tm' ! nat s = 0"
  proof
    fix s assume s: "s \<in> set A"
    show "tm' ! nat s = 0"
    proof (cases "nat s = nat v")
      case True
      with inA s zero show ?thesis by auto
    next
      case False
      with others[of "nat s"] inA s show ?thesis by simp
    qed
  qed
  from app show ?thesis
  proof
    assume eq: "A' = A"
    with inv len' inA inA' show ?thesis by (auto simp: loop_inv_def)
  next
    assume ap: "A' = A @ [v] \<and> tm ! nat v \<noteq> 0 \<and> tm' ! nat v = 0"
    then have vA: "v \<notin> set A" using inA by auto
    from inv obtain ys where ys: "A = fin @ ys" "distinct ys" "set ys \<inter> set fin = {}"
      "set ys \<inter> set Removed = {}" by (auto simp: loop_inv_def)
    have 1: "\<forall>s\<in>set A'. 0 \<le> s \<and> s < int n \<and> tm' ! nat s = 0"
      using ap inA inA' v by auto
    have 2: "\<exists>ys. A' = fin @ ys \<and> distinct ys \<and> set ys \<inter> set fin = {} \<and> set ys \<inter> set Removed = {}"
      using ys vA ap False by (intro exI[of _ "ys @ [v]"]) auto
    have 3: "\<forall>p<length A'. length fin \<le> p \<longrightarrow> (\<exists>j<p. cell T (nat (A' ! j)) (nat (A' ! p)) = 1)"
    proof (intro allI impI)
      fix p assume p: "p < length A'" "length fin \<le> p"
      show "\<exists>j<p. cell T (nat (A' ! j)) (nat (A' ! p)) = 1"
      proof (cases "p < length A")
        case True
        with inv p obtain j where "j < p" "cell T (nat (A ! j)) (nat (A ! p)) = 1"
          by (auto simp: loop_inv_def)
        with True ap show ?thesis by (auto simp: nth_append intro!: exI[of _ j])
      next
        case False
        with p ap have "p = length A" by simp
        with ap idx v show ?thesis by (auto simp: nth_append intro!: exI[of _ idx])
      qed
    qed
    from len' 1 2 3 ap show ?thesis by (simp add: loop_inv_def)
  qed
qed

lemma body_inv:
  assumes inv: "loop_inv n T Removed fin A tm" and T: "nrows T = n" "ncols T = n"
    and idx: "idx < length A" and vs: "adj T (A ! idx) = Inr vs"
    and fp: "for_preds g G Removed i vs (A, tm) = Inr (A', tm')"
  shows "loop_inv n T Removed fin A' tm' \<and> (\<exists>zs. A' = A @ zs)"
proof -
  from inv idx have a: "0 \<le> A ! idx" "A ! idx < int n" by (auto simp: loop_inv_def)
  with T have "adj T (A ! idx) = Inr (ones T (nat (A ! idx)) [0..<n])"
    using adj_resolved[of T "A ! idx" "nat (A ! idx)"] by (simp add: py_index_range)
  with vs have vs_eq: "vs = ones T (nat (A ! idx)) [0..<n]" by simp
  define P where "P = (\<lambda>st. loop_inv n T Removed fin (fst st) (snd st) \<and> (\<exists>zs. fst st = A @ zs))"
  have "P (A', tm')"
  proof (rule for_preds_rule[OF fp, of P])
    show "P (A, tm)" using inv by (simp add: P_def)
  next
    fix v s s1
    assume v: "v \<in> set vs" and Ps: "P s" and vis: "visit g G Removed i v s = Inr s1"
    obtain B tn where s: "s = (B, tn)" by (cases s)
    obtain B' tn' where s1: "s1 = (B', tn')" by (cases s1)
    from Ps s obtain zs where B: "loop_inv n T Removed fin B tn" "B = A @ zs" by (auto simp: P_def)
    from B idx have i1: "idx < length B" and i2: "B ! idx = A ! idx" by (auto simp: nth_append)
    from v vs_eq have vr: "0 \<le> v" "v < int n" "cell T (nat (A ! idx)) (nat v) = 1"
      by (auto simp: ones_mem)
    from visit_inv[OF B(1) i1 vr(1,2) _ vis[unfolded s s1]] vr(3) i2
    have "loop_inv n T Removed fin B' tn' \<and> (\<exists>zs. B' = B @ zs)" by simp
    with B(2) s1 show "P s1" by (auto simp: P_def)
  qed
  then show ?thesis by (simp add: P_def)
qed

lemma while_loop_inv:
  assumes "while_loop g G T Removed i index A tm = Inr R"
    and "loop_inv n T Removed fin A tm" and "nrows T = n" "ncols T = n"
  shows "\<exists>tm'. loop_inv n T Removed fin R tm'"
proof -
  have "\<exists>index' tm'. loop_inv n T Removed fin R tm' \<and> \<not> index' < length R"
  proof (rule while_loop_rule[OF assms(1), of "\<lambda>index A tm. loop_inv n T Removed fin A tm"])
    show "loop_inv n T Removed fin A tm" by fact
  next
    fix idx B tn ws B' tn'
    assume "loop_inv n T Removed fin B tn" "idx < length B" "adj T (B ! idx) = Inr ws"
      "for_preds g G Removed i ws (B, tn) = Inr (B', tn')"
    from body_inv[OF this(1) assms(3,4) this(2,3,4)]
    show "loop_inv n T Removed fin B' tn'" by simp
  qed
  then show ?thesis by blast
qed

lemma for_preds_ok:
  "\<forall>v\<in>set vs. 0 \<le> v \<and> v < int n \<Longrightarrow> length tm = n \<Longrightarrow> nrows G = n \<Longrightarrow>
     \<exists>st'. for_preds g G Removed i vs (A, tm) = Inr st'"
proof (induction vs arbitrary: A tm)
  case Nil
  then show ?case by simp
next
  case (Cons v vs)
  have "\<exists>A1 tm1. visit g G Removed i v (A, tm) = Inr (A1, tm1)"
  proof (cases "v \<in> set Removed")
    case True
    then show ?thesis by (simp add: visit_removed)
  next
    case False
    with Cons.prems visit_range[of v tm G Removed g i A] show ?thesis
      by (metis list.set_intros(1) surj_pair)
  qed
  then obtain A1 tm1 where v: "visit g G Removed i v (A, tm) = Inr (A1, tm1)" by blast
  from visit_measure[OF v] Cons.prems have "length tm1 = n" by simp
  with Cons.IH[of tm1 A1] Cons.prems obtain st' where
    "for_preds g G Removed i vs (A1, tm1) = Inr st'" by auto
  with v show ?case by simp
qed

lemma while_loop_ok:
  assumes "loop_inv n T Removed fin A tm" and "nrows T = n" "ncols T = n" "nrows G = n"
  shows "\<exists>R. while_loop g G T Removed i index A tm = Inr R"
  using assms
proof (induction g G T Removed i index A tm rule: while_loop.induct)
  case (1 g G T Removed i index A tmpMap)
  show ?case
  proof (cases "index < length A")
    case False
    then show ?thesis by (simp add: while_loop.simps)
  next
    case True
    from "1.prems"(1) True have a: "0 \<le> A ! index" "A ! index < int n" by (auto simp: loop_inv_def)
    with "1.prems" have vs: "adj T (A ! index) = Inr (ones T (nat (A ! index)) [0..<n])"
      using adj_resolved[of T "A ! index" "nat (A ! index)"] by (simp add: py_index_range)
    from "1.prems"(1) have len: "length tmpMap = n" by (simp add: loop_inv_def)
    from for_preds_ok[of "ones T (nat (A ! index)) [0..<n]" n tmpMap G g Removed i A] len "1.prems"(4)
    obtain A' tm' where fp:
      "for_preds g G Removed i (ones T (nat (A ! index)) [0..<n]) (A, tmpMap) = Inr (A', tm')"
      by (auto simp: ones_mem)
    from body_inv[OF "1.prems"(1,2,3) True vs fp] have inv': "loop_inv n T Removed fin A' tm'" by simp
    from "1.IH"[OF True vs fp refl inv' "1.prems"(2,3,4)] obtain R where
      "while_loop g G T Removed i (index + 1) A' tm' = Inr R" by blast
    with True vs fp show ?thesis by (subst while_loop.simps) simp
  qed
qed

section \<open>The matrices of the concrete games\<close>

text \<open>The graph builder yields the matrix of edges of each concrete game.\<close>

lemma builder_A: "matrixBuilder (JobstmannGame fin) (states (JobstmannGame fin)) (actions (JobstmannGame fin)) = Inr graph_A"
  apply (simp add: matrixBuilder_def JobstmannGame_def dict_keys_def zeros_def setitem_def graph_A_def matrix_of_edges_def upt_rec[of _ "numeral _"] )
  apply (auto simp: fun_eq_iff)
  done

lemma builder_B: "matrixBuilder scenarioB (states scenarioB) (actions scenarioB) = Inr graph_B"
  apply (simp add: matrixBuilder_def scenarioB_def JobstmannGame_def dict_keys_def zeros_def
      setitem_def graph_B_def matrix_of_edges_def upt_rec[of _ "numeral _"])
  apply (auto simp: fun_eq_iff)
  done

lemma builder_selfloop:
  "matrixBuilder selfloop_game (states selfloop_game) (actions selfloop_game) = Inr graph_selfloop"
  apply (simp add: matrixBuilder_def selfloop_game_def JobstmannGame_def dict_keys_def zeros_def
      setitem_def graph_selfloop_def matrix_of_edges_def upt_rec[of _ "numeral _"])
  apply (auto simp: fun_eq_iff)
  done

lemma builder_fork:
  "matrixBuilder fork_game (states fork_game) (actions fork_game) = Inr graph_fork"
  apply (simp add: matrixBuilder_def fork_game_def JobstmannGame_def dict_keys_def zeros_def
      setitem_def graph_fork_def matrix_of_edges_def upt_rec[of _ "numeral _"])
  apply (auto simp: fun_eq_iff)
  done

section \<open>The solver on a well-formed input\<close>

lemma graph_A_shape: "nrows graph_A = 4 \<and> ncols graph_A = 4
    \<and> nrows (transpose_T graph_A) = 4 \<and> ncols (transpose_T graph_A) = 4"
  by (simp add: graph_A_def matrix_of_edges_def transpose_T_def)

lemma graph_selfloop_shape: "nrows graph_selfloop = 2 \<and> ncols graph_selfloop = 2"
  by (simp add: graph_selfloop_def matrix_of_edges_def)

lemma transpose_T_shape: "nrows (transpose_T G) = ncols G \<and> ncols (transpose_T G) = nrows G"
  by (simp add: transpose_T_def)

lemma transpose_T_cell: "cell (transpose_T G) a b = cell G b a"
  by (simp add: transpose_T_def)

lemma distinct_range_length:
  assumes "distinct ys" and "\<forall>y\<in>set ys. 0 \<le> y \<and> y < int n"
  shows "length ys \<le> n"
proof -
  have "set ys \<subseteq> int ` {..<n}"
  proof
    fix y assume "y \<in> set ys"
    with assms(2) have "0 \<le> y" "y < int n" by auto
    then show "y \<in> int ` {..<n}" by (intro image_eqI[where x="nat y"]) auto
  qed
  then have "card (set ys) \<le> card (int ` {..<n})" by (intro card_mono) auto
  also have "\<dots> \<le> n" using card_image_le[of "{..<n}" int] by simp
  finally show ?thesis using assms(1) by (simp add: distinct_card)
qed

lemma solver_inv:
  assumes "nrows G = n" "ncols G = n" "nrows T = n" "ncols T = n"
    and "\<forall>s\<in>set fin. 0 \<le> s \<and> s < int n"
  shows "\<exists>Removed R tm. removed_set g G = Inr Removed \<and> solver g G T fin i = Inr R
           \<and> loop_inv n T Removed fin R tm"
proof -
  from assms(1,2) obtain Removed where rm: "removed_set g G = Inr Removed"
    using removed_set_eq[of G g] by simp
  let ?tm = "init_tmpMap fin [0..<n] (replicate n 0)"
  have i0: "loop_inv n T Removed fin fin ?tm" using assms(5) by (rule loop_inv_init)
  from while_loop_ok[OF i0 assms(3,4,1)] obtain R where
    w: "while_loop g G T Removed i 0 fin ?tm = Inr R" by blast
  from while_loop_inv[OF w i0 assms(3,4)] obtain tm where "loop_inv n T Removed fin R tm" by blast
  with rm w assms(1) show ?thesis by (auto simp: solver_def)
qed

section \<open>Failures of the solver\<close>

text \<open>
  Every failure of the solver is an \<^verbatim>\<open>IndexError\<close>; a row index outside
  \<open>-n..n-1\<close> raises it as soon as the matrix has a column; the loop reads the row of
  every target before it returns.
\<close>

lemma py_index_error: "py_index n k = Inl e \<Longrightarrow> e = IndexError"
  by (auto simp: py_index_def split: if_splits)

lemma item_error: "item m r c = Inl e \<Longrightarrow> e = IndexError"
  by (auto simp: item_def split: sum.splits dest: py_index_error)

lemma adj_loop_error: "adj_loop m row cols temp = Inl e \<Longrightarrow> e = IndexError"
  by (induction cols arbitrary: temp) (auto split: sum.splits dest: item_error)

lemma adj_error: "adj m row = Inl e \<Longrightarrow> e = IndexError"
  by (auto simp: adj_def dest: adj_loop_error)

lemma removed_inner_error: "removed_inner g G iter rest Removed = Inl e \<Longrightarrow> e = IndexError"
  by (induction rest arbitrary: Removed) (auto split: sum.splits dest: item_error)

lemma removed_outer_error: "removed_outer g G rest Removed = Inl e \<Longrightarrow> e = IndexError"
  by (induction rest arbitrary: Removed)
     (auto split: sum.splits if_splits dest: item_error removed_inner_error)

lemma visit_error: "visit g G Removed i v0 st = Inl e \<Longrightarrow> e = IndexError"
  by (cases st) (auto simp: visit_def first_seen_def Let_def split: sum.splits if_splits
      dest: py_index_error adj_error)

lemma for_preds_error: "for_preds g G Removed i vs st = Inl e \<Longrightarrow> e = IndexError"
  by (induction vs arbitrary: st) (auto split: sum.splits dest: visit_error)

lemma while_loop_error: "while_loop g G T Removed i index A tm = Inl e \<Longrightarrow> e = IndexError"
proof (induction g G T Removed i index A tm rule: while_loop.induct)
  case (1 g G T Removed i index A tmpMap)
  show ?case
  proof (cases "index < length A")
    case False
    with "1.prems" show ?thesis by (simp add: while_loop.simps)
  next
    case True
    show ?thesis
    proof (cases "adj T (A ! index)")
      case (Inl e')
      with True "1.prems" show ?thesis
        by (subst (asm) while_loop.simps) (auto dest: adj_error)
    next
      case vs: (Inr vs)
      show ?thesis
      proof (cases "for_preds g G Removed i vs (A, tmpMap)")
        case (Inl e')
        with True vs "1.prems" show ?thesis
          by (subst (asm) while_loop.simps) (auto dest: for_preds_error)
      next
        case (Inr st)
        obtain A' tm' where st: "st = (A', tm')" by (cases st)
        from True vs Inr st "1.prems"
        have "while_loop g G T Removed i (index + 1) A' tm' = Inl e"
          by (subst (asm) while_loop.simps) simp
        from "1.IH"[OF True vs Inr st[symmetric] this] show ?thesis .
      qed
    qed
  qed
qed

lemma solver_error: "solver g G T fin i = Inl e \<Longrightarrow> e = IndexError"
  by (auto simp: solver_def removed_set_def Let_def split: sum.splits
      dest: removed_outer_error while_loop_error)

lemma adj_out_of_range:
  assumes "0 < ncols m" and "row < - int (nrows m) \<or> int (nrows m) \<le> row"
  shows "adj m row = Inl IndexError"
proof -
  from assms(1) have "[0..<ncols m] = 0 # [1..<ncols m]" by (simp add: upt_conv_Cons)
  moreover from assms(2) have "item m row (int 0) = Inl IndexError"
    by (auto simp: item_def py_index_def)
  ultimately show ?thesis by (simp add: adj_def)
qed

lemma visit_prefix:
  assumes "visit g G Removed i v0 (A, tm) = Inr (A', tm')"
  shows "\<exists>zs. A' = A @ zs"
proof (cases "v0 \<in> set Removed")
  case True
  with assms show ?thesis by (simp add: visit_removed)
next
  case False
  from visit_effect[OF assms False] show ?thesis by auto
qed

lemma for_preds_prefix:
  assumes "for_preds g G Removed i vs (A, tm) = Inr (A', tm')"
  shows "\<exists>zs. A' = A @ zs"
proof -
  have "\<exists>zs. fst (A', tm') = A @ zs"
  proof (rule for_preds_rule[OF assms, of "\<lambda>st. \<exists>zs. fst st = A @ zs"])
    show "\<exists>zs. fst (A, tm) = A @ zs" by simp
  next
    fix v s s1
    assume "\<exists>zs. fst s = A @ zs" and vis: "visit g G Removed i v s = Inr s1"
    then obtain zs where zs: "fst s = A @ zs" by blast
    obtain B tn where s: "s = (B, tn)" by (cases s)
    obtain B' tn' where s1: "s1 = (B', tn')" by (cases s1)
    from visit_prefix[OF vis[unfolded s s1]] zs s s1 show "\<exists>zs. fst s1 = A @ zs" by auto
  qed
  then show ?thesis by simp
qed

lemma while_loop_rows:
  assumes "while_loop g G T Removed i 0 fin tm = Inr R"
  shows "\<forall>s\<in>set fin. \<exists>vs. adj T s = Inr vs"
proof -
  define I where "I = (\<lambda>index A (tm :: int list). index \<le> length A \<and> (\<exists>zs. A = fin @ zs)
                          \<and> (\<forall>p<index. \<exists>vs. adj T (A ! p) = Inr vs))"
  have "\<exists>index' tm'. I index' R tm' \<and> \<not> index' < length R"
  proof (rule while_loop_rule[OF assms, of I])
    show "I 0 fin tm" by (simp add: I_def)
  next
    fix idx B tn ws B' tn'
    assume I: "I idx B tn" and idx: "idx < length B" and ws: "adj T (B ! idx) = Inr ws"
      and fp: "for_preds g G Removed i ws (B, tn) = Inr (B', tn')"
    from for_preds_prefix[OF fp] obtain zs where zs: "B' = B @ zs" by blast
    have "\<exists>vs. adj T (B' ! p) = Inr vs" if "p < idx + 1" for p
    proof (cases "p < idx")
      case True
      with I idx zs show ?thesis by (auto simp: I_def nth_append)
    next
      case False
      with that have "p = idx" by simp
      with idx zs ws show ?thesis by (simp add: nth_append)
    qed
    with I idx zs show "I (idx + 1) B' tn'" by (auto simp: I_def)
  qed
  then obtain index' tm' where I: "I index' R tm'" and e: "\<not> index' < length R" by blast
  then have all: "\<forall>p<length R. \<exists>vs. adj T (R ! p) = Inr vs" and "\<exists>zs. R = fin @ zs"
    by (auto simp: I_def)
  then obtain zs where zs: "R = fin @ zs" by blast
  show ?thesis
  proof
    fix s assume "s \<in> set fin"
    then obtain p where p: "p < length fin" "fin ! p = s" by (auto simp: in_set_conv_nth)
    with zs all have "\<exists>vs. adj T (R ! p) = Inr vs" by simp
    with p zs show "\<exists>vs. adj T s = Inr vs" by (simp add: nth_append)
  qed
qed

section \<open>The claims\<close>

text \<open>
  C5 (scenario A). The game of \<^verbatim>\<open>jobstmann.py\<close>: states 0 to 3, edges 0 to 1, 1 to 2 and
  2 to 3, state 2 owned by player 1, target 3, attracting player 1. The matrix is built by
  \<^verbatim>\<open>matrixBuilder\<close> and the solver returns the sequence 3, 2, 1, 0, that is the winning
  region {0, 1, 2, 3}.
\<close>

theorem scenario_A_region:
  "solve_game (JobstmannGame [3]) 1 = Inr [3, 2, 1, 0] \<and> set [3, 2, 1, 0] = {0, 1, 2, 3 :: int}"
proof -
  have "solve_game (JobstmannGame [3]) 1 = Inr [3, 2, 1, 0]" by code_simp
  moreover have "set [3, 2, 1, 0] = {0, 1, 2, 3 :: int}" by auto
  ultimately show ?thesis by simp
qed

text \<open>
  C1 (scenario B). With the extra edge from 1 to the dead end 4 the solver still returns
  3, 2, 1, 0: state 1, owned by the opponent and with the escape to 4, is appended, and
  state 0 after it. The counter of state 1 is set to 1 on its first visit and decremented
  by the second statement of the same visit.
\<close>

theorem scenario_B_returns_escaping_states:
  "solve_game scenarioB 1 = Inr [3, 2, 1, 0]"
  by code_simp

text \<open>
  C8 (the Removed set). For a square matrix the preprocessing pass raises nothing, and a
  state \<open>v1\<close> is in \<^verbatim>\<open>Removed\<close> exactly when some state \<open>v\<close> has a self-loop
  (\<open>G[v][v] = 1\<close>), belongs to player 2 and has the edge \<open>G[v1][v] = 1\<close>. Nothing but a
  direct self-loop on a state of player 2 puts a state into the list.
\<close>

theorem removed_characterization:
  assumes "nrows G = n" "ncols G = n"
  shows "\<exists>Removed. removed_set g G = Inr Removed \<and>
           set Removed = {int v1 | v1 v. v1 < n \<and> v < n \<and> cell G v v = 1 \<and> turn g (int v) = 2
                                          \<and> cell G v1 v = 1}"
  using assms by (auto simp: removed_set_eq removed_by_def)

text \<open>
  Witness of C8: the two-state game with the edges 0 to 1 and 1 to 1.
\<close>

theorem removed_characterization_witness:
  "nrows graph_selfloop = 2 \<and> ncols graph_selfloop = 2 \<and>
   (\<exists>Removed. removed_set selfloop_game graph_selfloop = Inr Removed \<and>
      set Removed = {int v1 | v1 v. v1 < 2 \<and> v < 2 \<and> cell graph_selfloop v v = 1
                       \<and> turn selfloop_game (int v) = 2 \<and> cell graph_selfloop v1 v = 1})"
  using removed_characterization[of graph_selfloop 2 selfloop_game] graph_selfloop_shape
  by simp

text \<open>
  C6 (target inclusion). For a game with square matrices of dimension \<open>n\<close>, any
  attracting player and targets inside the declared states \<open>0..n-1\<close>, the solver returns
  a sequence and every target is a member of it.
\<close>

theorem target_inclusion:
  assumes "nrows G = n" "ncols G = n" "nrows T = n" "ncols T = n"
    and "\<forall>s\<in>set fin. 0 \<le> s \<and> s < int n"
  shows "\<exists>R. solver g G T fin i = Inr R \<and> set fin \<subseteq> set R"
proof -
  from solver_inv[OF assms, of g i] obtain Removed R tm where
    "solver g G T fin i = Inr R" "loop_inv n T Removed fin R tm" by blast
  then show ?thesis by (auto simp: loop_inv_def)
qed

text \<open>
  Witness of C6: the game of \<^verbatim>\<open>jobstmann.py\<close> with target 3.
\<close>

theorem target_inclusion_witness:
  "(\<exists>R. solver (JobstmannGame [3]) graph_A (transpose_T graph_A) [3] 1 = Inr R
      \<and> set [3] \<subseteq> set R)"
  using target_inclusion[of graph_A 4 "transpose_T graph_A" "[3]" "JobstmannGame [3]" 1]
    graph_A_shape
  by simp

text \<open>
  C9 (termination). The worklist loop is defined by recursion on the measure
  \<open>length A - index + nonzeros tmpMap\<close>, which every iteration lowers
  (\<open>for_preds_measure\<close>), so it ends on every input. On a game with square matrices of
  dimension \<open>n\<close> and targets inside the declared states it ends with a result and not with
  an error: the returned sequence is the target list followed by appended states (the
  worklist only grows), no appended state occurs twice or is a target, and its length is
  at most the number of targets plus \<open>n\<close>.
\<close>

theorem worklist_loop_terminates:
  assumes "nrows G = n" "ncols G = n" "nrows T = n" "ncols T = n"
    and "\<forall>s\<in>set fin. 0 \<le> s \<and> s < int n"
  shows "\<exists>R ys. solver g G T fin i = Inr R \<and> R = fin @ ys \<and> distinct ys
           \<and> set ys \<inter> set fin = {} \<and> length R \<le> length fin + n"
proof -
  from solver_inv[OF assms, of g i] obtain Removed R tm where
    R: "solver g G T fin i = Inr R" and inv: "loop_inv n T Removed fin R tm" by blast
  from inv obtain ys where ys: "R = fin @ ys" "distinct ys" "set ys \<inter> set fin = {}"
    by (auto simp: loop_inv_def)
  from inv ys(1) have "\<forall>y\<in>set ys. 0 \<le> y \<and> y < int n" by (auto simp: loop_inv_def)
  with ys(2) have "length ys \<le> n" by (rule distinct_range_length)
  with R ys show ?thesis by auto
qed

text \<open>
  Witness of C9: the game of \<^verbatim>\<open>jobstmann.py\<close> with target 3.
\<close>

theorem worklist_loop_terminates_witness:
  "\<exists>R ys. solver (JobstmannGame [3]) graph_A (transpose_T graph_A) [3] 1 = Inr R
      \<and> R = [3] @ ys \<and> distinct ys \<and> set ys \<inter> set [3] = {} \<and> length R \<le> length [3::int] + 4"
  using worklist_loop_terminates[of graph_A 4 "transpose_T graph_A" "[3]" "JobstmannGame [3]" 1]
    graph_A_shape
  by simp

text \<open>
  C4 as stated fails: a target that is in \<^verbatim>\<open>Removed\<close> is in the returned sequence, since
  \<^verbatim>\<open>A = list(final)\<close> is not filtered. In the two-state game with the edges 0 to 1 and
  1 to 1, state 1 is in \<^verbatim>\<open>Removed\<close> and, as the target, is returned.
\<close>

theorem removed_target_in_record:
  "removed_set selfloop_game graph_selfloop = Inr [0, 1] \<and>
   solver selfloop_game graph_selfloop (transpose_T graph_selfloop) [1] 1 = Inr [1] \<and>
   (1::int) \<in> set [0, 1] \<and> (1::int) \<in> set [1]"
proof -
  have "removed_set selfloop_game graph_selfloop = Inr [0, 1]" by code_simp
  moreover have
    "solver selfloop_game graph_selfloop (transpose_T graph_selfloop) [1] 1 = Inr [1]"
    by code_simp
  ultimately show ?thesis by simp
qed

text \<open>
  C4, amended. No state of \<^verbatim>\<open>Removed\<close> is ever appended by the loop: every state of
  \<^verbatim>\<open>Removed\<close> that occurs in the returned sequence is one of the targets.
\<close>

theorem removed_never_appended:
  assumes "nrows G = n" "ncols G = n" "nrows T = n" "ncols T = n"
    and "\<forall>s\<in>set fin. 0 \<le> s \<and> s < int n"
  shows "\<exists>Removed R. removed_set g G = Inr Removed \<and> solver g G T fin i = Inr R
           \<and> (\<forall>s\<in>set R. s \<in> set Removed \<longrightarrow> s \<in> set fin)"
proof -
  from solver_inv[OF assms, of g i] obtain Removed R tm where
    R: "removed_set g G = Inr Removed" "solver g G T fin i = Inr R"
    and inv: "loop_inv n T Removed fin R tm" by blast
  from inv have "\<forall>s\<in>set R. s \<in> set Removed \<longrightarrow> s \<in> set fin" by (auto simp: loop_inv_def)
  with R show ?thesis by blast
qed

text \<open>
  Witness of the amended C4: the two-state game with the self-loop, target 1.
\<close>

theorem removed_never_appended_witness:
  "\<exists>Removed R. removed_set selfloop_game graph_selfloop = Inr Removed
      \<and> solver selfloop_game graph_selfloop (transpose_T graph_selfloop) [1] 1 = Inr R
      \<and> (\<forall>s\<in>set R. s \<in> set Removed \<longrightarrow> s \<in> set [1])"
  using removed_never_appended[of graph_selfloop 2 "transpose_T graph_selfloop" "[1]"
      selfloop_game 1] graph_selfloop_shape
  by (simp add: transpose_T_shape)

text \<open>
  C10 (witness edge). With the transpose as predecessor matrix, every state of the
  returned sequence that is not a target has an edge in \<open>G\<close> to a state that occurs
  strictly earlier in the sequence.
\<close>

theorem witness_edge:
  assumes "nrows G = n" "ncols G = n"
    and "\<forall>s\<in>set fin. 0 \<le> s \<and> s < int n"
  shows "\<exists>R. solver g G (transpose_T G) fin i = Inr R
           \<and> (\<forall>p<length R. R ! p \<notin> set fin \<longrightarrow>
                 (\<exists>j<p. item G (R ! p) (R ! j) = Inr 1))"
proof -
  have T: "nrows (transpose_T G) = n" "ncols (transpose_T G) = n"
    using assms(1,2) by (simp_all add: transpose_T_shape)
  from solver_inv[OF assms(1,2) T assms(3), of g i] obtain Removed R tm where
    R: "solver g G (transpose_T G) fin i = Inr R"
    and inv: "loop_inv n (transpose_T G) Removed fin R tm" by blast
  have "\<exists>j<p. item G (R ! p) (R ! j) = Inr 1" if p: "p < length R" "R ! p \<notin> set fin" for p
  proof -
    from inv obtain ys where ys: "R = fin @ ys" by (auto simp: loop_inv_def)
    with p have "length fin \<le> p" by (cases "p < length fin") (auto simp: nth_append)
    with inv p(1) obtain j where j: "j < p" "cell G (nat (R ! p)) (nat (R ! j)) = 1"
      by (auto simp: loop_inv_def transpose_T_cell)
    from inv p(1) j(1) have "0 \<le> R ! p" "R ! p < int n" "0 \<le> R ! j" "R ! j < int n"
      by (auto simp: loop_inv_def)
    with j(2) assms(1,2) have "item G (R ! p) (R ! j) = Inr 1"
      by (simp add: item_def py_index_range)
    with j(1) show ?thesis by blast
  qed
  with R show ?thesis by blast
qed

text \<open>
  Witness of C10: the game of \<^verbatim>\<open>jobstmann.py\<close> with target 3.
\<close>

theorem witness_edge_witness:
  "\<exists>R. solver (JobstmannGame [3]) graph_A (transpose_T graph_A) [3] 1 = Inr R
      \<and> (\<forall>p<length R. R ! p \<notin> set [3] \<longrightarrow>
            (\<exists>j<p. item graph_A (R ! p) (R ! j) = Inr 1))"
  using witness_edge[of graph_A 4 "[3]" "JobstmannGame [3]" 1] graph_A_shape
  by simp

text \<open>
  C7 as stated fails: in the game of \<^verbatim>\<open>jobstmann.py\<close> state 0 has no incoming edge
  (its row of the transpose is empty) and is not the target, and it is returned.
\<close>

theorem source_state_in_region:
  "adj (transpose_T graph_A) 0 = Inr [] \<and> (0::int) \<notin> set [3] \<and>
   solver (JobstmannGame [3]) graph_A (transpose_T graph_A) [3] 1 = Inr [3, 2, 1, 0] \<and>
   (0::int) \<in> set [3, 2, 1, 0]"
proof -
  have "adj (transpose_T graph_A) 0 = Inr []" by code_simp
  moreover have
    "solver (JobstmannGame [3]) graph_A (transpose_T graph_A) [3] 1 = Inr [3, 2, 1, 0]"
    by code_simp
  ultimately show ?thesis by simp
qed

text \<open>
  C7, amended. The loop walks edges backwards, so what excludes a state is the absence
  of outgoing edges: a state that is not a target and has no outgoing edge in \<open>G\<close> is
  never in the returned sequence.
\<close>

theorem no_outgoing_edge_excluded:
  assumes "nrows G = n" "ncols G = n"
    and "\<forall>s\<in>set fin. 0 \<le> s \<and> s < int n"
    and "0 \<le> s" "s < int n" "adj G s = Inr []" "s \<notin> set fin"
  shows "\<exists>R. solver g G (transpose_T G) fin i = Inr R \<and> s \<notin> set R"
proof -
  have T: "nrows (transpose_T G) = n" "ncols (transpose_T G) = n"
    using assms(1,2) by (simp_all add: transpose_T_shape)
  from solver_inv[OF assms(1,2) T assms(3), of g i] obtain Removed R tm where
    R: "solver g G (transpose_T G) fin i = Inr R"
    and inv: "loop_inv n (transpose_T G) Removed fin R tm" by blast
  from assms(1,2,4,5,6) have none: "ones G (nat s) [0..<n] = []"
    using adj_resolved[of G s "nat s"] by (simp add: py_index_range)
  have "s \<notin> set R"
  proof
    assume "s \<in> set R"
    then obtain p where p: "p < length R" "R ! p = s" by (auto simp: in_set_conv_nth)
    from inv obtain ys where ys: "R = fin @ ys" by (auto simp: loop_inv_def)
    with p assms(7) have "length fin \<le> p" by (cases "p < length fin") (auto simp: nth_append)
    with inv p obtain j where j: "j < p" "cell G (nat s) (nat (R ! j)) = 1"
      by (auto simp: loop_inv_def transpose_T_cell)
    from inv p(1) j(1) have "0 \<le> R ! j" "R ! j < int n" by (auto simp: loop_inv_def)
    with j(2) have "R ! j \<in> set (ones G (nat s) [0..<n])" by (simp add: ones_mem)
    with none show False by simp
  qed
  with R show ?thesis by blast
qed

text \<open>
  Witness of the amended C7: state 3 of the game of \<^verbatim>\<open>jobstmann.py\<close>, with target 2.
\<close>

theorem no_outgoing_edge_excluded_witness:
  "adj graph_A 3 = Inr [] \<and> (3::int) \<notin> set [2] \<and>
   (\<exists>R. solver (JobstmannGame [2]) graph_A (transpose_T graph_A) [2] 1 = Inr R \<and> 3 \<notin> set R)"
proof -
  have a: "adj graph_A 3 = Inr []" by code_simp
  from no_outgoing_edge_excluded[of graph_A 4 "[2]" 3 "JobstmannGame [2]" 1] graph_A_shape a
  show ?thesis by simp
qed

text \<open>
  C3 as stated fails: the solver validates nothing. With the player tag 3 it returns a
  sequence (every state is then treated as the opponent's), and with the target -1,
  which is outside the declared states 0 to 3, it returns a sequence as well (-1 indexes
  the last row of the predecessor matrix).
\<close>

theorem validation_absent:
  "solve_game (JobstmannGame [3]) 3 = Inr [3, 2, 1, 0] \<and>
   solve_game (JobstmannGame [- 1]) 1 = Inr [- 1, 2, 1, 0]"
proof -
  have "solve_game (JobstmannGame [3]) 3 = Inr [3, 2, 1, 0]" by code_simp
  moreover have "solve_game (JobstmannGame [- 1]) 1 = Inr [- 1, 2, 1, 0]" by code_simp
  ultimately show ?thesis by simp
qed

text \<open>
  C3, amended. The solver has no failure of its own and accepts every player tag: on
  square matrices of dimension \<open>n\<close> with targets in \<open>0..n-1\<close> it returns a sequence for
  every integer \<open>i\<close>. A target outside \<open>-n..n-1\<close> makes the solve fail, with the
  \<^verbatim>\<open>IndexError\<close> of the matrix access and no partial result.
\<close>

theorem no_validation_only_index_errors:
  assumes "nrows G = n" "ncols G = n" "nrows T = n" "ncols T = n"
  shows "((\<forall>s\<in>set fin. 0 \<le> s \<and> s < int n) \<longrightarrow> (\<exists>R. solver g G T fin i = Inr R)) \<and>
         ((\<exists>s\<in>set fin. s < - int n \<or> int n \<le> s) \<longrightarrow> 0 < n \<longrightarrow>
            solver g G T fin i = Inl IndexError)"
proof (intro conjI impI)
  assume "\<forall>s\<in>set fin. 0 \<le> s \<and> s < int n"
  from solver_inv[OF assms this, of g i] show "\<exists>R. solver g G T fin i = Inr R" by blast
next
  assume bad: "\<exists>s\<in>set fin. s < - int n \<or> int n \<le> s" and n: "0 < n"
  then obtain s where s: "s \<in> set fin" "s < - int n \<or> int n \<le> s" by blast
  with assms n have adj: "adj T s = Inl IndexError" by (intro adj_out_of_range) auto
  show "solver g G T fin i = Inl IndexError"
  proof (cases "solver g G T fin i")
    case (Inl e)
    with solver_error[OF Inl] show ?thesis by simp
  next
    case (Inr R)
    then obtain Removed tm where "while_loop g G T Removed i 0 fin tm = Inr R"
      by (auto simp: solver_def Let_def split: sum.splits)
    from while_loop_rows[OF this] s(1) adj show ?thesis by auto
  qed
qed

text \<open>
  Witness of the amended C3: player tag 3 on the game of \<^verbatim>\<open>jobstmann.py\<close>, and the
  target list 3, 7.
\<close>

theorem no_validation_only_index_errors_witness:
  "(\<exists>R. solver (JobstmannGame [3]) graph_A (transpose_T graph_A) [3] 3 = Inr R) \<and>
   solver (JobstmannGame [3, 7]) graph_A (transpose_T graph_A) [3, 7] 1 = Inl IndexError"
  using no_validation_only_index_errors[of graph_A 4 "transpose_T graph_A" "[3]"
      "JobstmannGame [3]" 3]
    no_validation_only_index_errors[of graph_A 4 "transpose_T graph_A" "[3, 7]"
      "JobstmannGame [3, 7]" 1]
    graph_A_shape
  by simp

text \<open>
  C2 (rule b). The claim: for either attracting player, an opponent-owned state with a
  successor outside \<^verbatim>\<open>Removed\<close> is returned if all its successors outside
  \<^verbatim>\<open>Removed\<close> are returned, and a returned opponent-owned state has all its
  successors outside \<^verbatim>\<open>Removed\<close> returned. The solver breaks both directions.
  Converse: in scenario B, with attracting player 1, state 1 belongs to player 2 and is
  returned, while its successor 4 is neither in \<^verbatim>\<open>Removed\<close> nor returned; the counter
  of state 1 is set to 1 and decremented to 0 within its first visit. Forward: with
  attracting player 2, in the game with the edges 2 to 1 and 2 to 3 and the targets 1 and
  3, state 2 belongs to the opponent (player 1) and both its successors are returned, but
  state 2 is not: the decrement is guarded by \<^verbatim>\<open>game.turn(v0) == 2\<close> where the opponent
  of player 2 is player 1.
\<close>

theorem rule_b_fails_both_ways:
  "solver scenarioB graph_B (transpose_T graph_B) [3] 1 = Inr [3, 2, 1, 0] \<and>
   removed_set scenarioB graph_B = Inr [] \<and> turn scenarioB 1 = 2 \<and>
   item graph_B 1 4 = Inr 1 \<and> (4::int) \<notin> set [3, 2, 1, 0] \<and>
   solver fork_game graph_fork (transpose_T graph_fork) [1, 3] 2 = Inr [1, 3] \<and>
   removed_set fork_game graph_fork = Inr [] \<and> turn fork_game 2 = 1 \<and>
   adj graph_fork 2 = Inr [1, 3] \<and> (2::int) \<notin> set [1, 3]"
proof -
  have "solver scenarioB graph_B (transpose_T graph_B) [3] 1 = Inr [3, 2, 1, 0]" by code_simp
  moreover have "removed_set scenarioB graph_B = Inr []" by code_simp
  moreover have "turn scenarioB 1 = 2" by code_simp
  moreover have "item graph_B 1 4 = Inr 1" by code_simp
  moreover have "solver fork_game graph_fork (transpose_T graph_fork) [1, 3] 2 = Inr [1, 3]"
    by code_simp
  moreover have "removed_set fork_game graph_fork = Inr []" by code_simp
  moreover have "turn fork_game 2 = 1" by code_simp
  moreover have "adj graph_fork 2 = Inr [1, 3]" by code_simp
  ultimately show ?thesis by simp
qed

end
